theory Spec2Isabelle
  imports Main "HOL-Library.Sublist"
begin

section \<open>Python strings\<close>

text \<open>
  Python's \<open>str\<close> is modelled as \<open>string\<close>. The library methods the program calls
  (\<open>lower\<close>, \<open>strip\<close>, \<open>split(None, n)\<close>, \<open>splitlines\<close>, \<open>in\<close>) are modelled on
  ASCII: a character outside ASCII has no case, is no whitespace and ends no line.
\<close>

definition lower_char :: "char \<Rightarrow> char" where
  "lower_char c =
     (let n = (of_char c :: nat) in if 65 \<le> n \<and> n \<le> 90 then char_of (n + 32) else c)"

definition lower :: "string \<Rightarrow> string" where
  "lower s = map lower_char s"

text \<open>\<open>str.isspace\<close> on one ASCII character: TAB, LF, VT, FF, CR, FS, GS, RS, US, space.\<close>

definition isspace :: "char \<Rightarrow> bool" where
  "isspace c = (let n = (of_char c :: nat) in (9 \<le> n \<and> n \<le> 13) \<or> (28 \<le> n \<and> n \<le> 32))"

text \<open>The ASCII line boundaries of \<open>str.splitlines\<close>: LF, VT, FF, CR, FS, GS, RS.\<close>

definition is_linebreak :: "char \<Rightarrow> bool" where
  "is_linebreak c = (let n = (of_char c :: nat) in (10 \<le> n \<and> n \<le> 13) \<or> (28 \<le> n \<and> n \<le> 30))"

definition strip :: "string \<Rightarrow> string" where
  "strip s = rev (dropWhile isspace (rev (dropWhile isspace s)))"

text \<open>\<open>starts_with p s\<close>: \<open>s\<close> begins with \<open>p\<close>.\<close>

fun starts_with :: "string \<Rightarrow> string \<Rightarrow> bool" where
  "starts_with [] s = True"
| "starts_with (p # ps) [] = False"
| "starts_with (p # ps) (c # cs) = (p = c \<and> starts_with ps cs)"

text \<open>\<open>contains sub s\<close> is Python's \<open>sub in s\<close> on strings: \<open>sub\<close> occurs in \<open>s\<close> as a
  contiguous substring.\<close>

fun contains :: "string \<Rightarrow> string \<Rightarrow> bool" where
  "contains sub [] = (sub = [])"
| "contains sub (c # cs) = (starts_with sub (c # cs) \<or> contains sub cs)"

text \<open>
  \<open>s.splitlines()\<close>: the text is cut at every line boundary, CR LF counting as one; the
  boundaries are dropped and no empty last line is produced. \<open>cur\<close> holds the characters
  of the line being read, most recent first.
\<close>

fun splitlines_from :: "string \<Rightarrow> string \<Rightarrow> string list" where
  "splitlines_from cur [] = (if cur = [] then [] else [rev cur])"
| "splitlines_from cur (c # cs) =
     (if is_linebreak c
      then rev cur # splitlines_from []
             (if c = CHR 0x0D \<and> starts_with [CHR 0x0A] cs then tl cs else cs)
      else splitlines_from (c # cur) cs)"

definition splitlines :: "string \<Rightarrow> string list" where
  "splitlines s = splitlines_from [] s"

text \<open>
  \<open>s.split(None, maxsplit)\<close>: leading whitespace is skipped, at most \<open>maxsplit\<close> words
  are cut off at runs of whitespace, and what follows the whitespace after the last of
  them is the final field, taken whole (inner and trailing whitespace included).
\<close>

fun split_none :: "nat \<Rightarrow> string \<Rightarrow> string list" where
  "split_none 0 s =
     (let r = dropWhile isspace s in if r = [] then [] else [r])"
| "split_none (Suc n) s =
     (let r = dropWhile isspace s in
      if r = [] then []
      else takeWhile (\<lambda>c. \<not> isspace c) r # split_none n (dropWhile (\<lambda>c. \<not> isspace c) r))"

section \<open>Units and the directory query\<close>

text \<open>The dict built by \<open>fetch_services\<close> for one line of the listing.\<close>

record service =
  unit :: string
  load :: string
  active :: string
  sub :: string
  description :: string

text \<open>The exceptions the modelled code can raise.\<close>

datatype error = OSError string | ValueError | IndexError

text \<open>
  What \<open>subprocess.run(cmd, capture_output=True, text=True)\<close> gives: a completed process
  with its return code, standard output and standard error, or an exception when the
  command cannot be started (its text is what \<open>str(e)\<close> shows).
\<close>

datatype proc = Completed int string string | SpawnError string

text \<open>
  The loop of \<open>fetch_services\<close> over the lines of the output; \<open>acc\<close> is the list
  \<open>services\<close> built so far. The tuple assignment \<open>unit, load, active, sub, desc = parts\<close>
  raises \<open>ValueError\<close> unless \<open>parts\<close> has exactly five elements.
\<close>

fun parse_lines :: "string list \<Rightarrow> service list \<Rightarrow> error + service list" where
  "parse_lines [] acc = Inr acc"
| "parse_lines (line # ls) acc =
     (let parts = split_none 4 line in
      if length parts < 5 then parse_lines ls acc
      else (case parts of
              [u, l, a, s, d] \<Rightarrow>
                parse_lines ls
                  (acc @ [\<lparr>unit = u, load = l, active = a, sub = s, description = d\<rparr>])
            | _ \<Rightarrow> Inl ValueError))"

definition fetch_services :: "proc \<Rightarrow> error + service list" where
  "fetch_services p =
     (case p of
        SpawnError m \<Rightarrow> Inl (OSError m)
      | Completed rc out err \<Rightarrow> parse_lines (splitlines out) [])"

text \<open>\<open>run_action\<close>: success flag and combined output; an exception is caught and reported
  as a failure carrying its text.\<close>

definition run_action :: "proc \<Rightarrow> bool \<times> string" where
  "run_action p =
     (case p of
        Completed rc out err \<Rightarrow> (rc = 0, out @ err)
      | SpawnError m \<Rightarrow> (False, m))"

section \<open>The filter\<close>

text \<open>The test of the loop body of \<open>apply_filter\<close>, also written out in the handlers of
  the keys \<open>n\<close> and \<open>N\<close>; \<open>ql\<close> is the query already in lower case.\<close>

definition matches :: "string \<Rightarrow> service \<Rightarrow> bool" where
  "matches ql s = (contains ql (lower (unit s)) \<or> contains ql (lower (description s)))"

fun filter_loop :: "string \<Rightarrow> service list \<Rightarrow> service list \<Rightarrow> service list" where
  "filter_loop ql [] out = out"
| "filter_loop ql (s # ss) out =
     (if matches ql s then filter_loop ql ss (out @ [s]) else filter_loop ql ss out)"

text \<open>\<open>not q\<close> holds for \<open>None\<close> and for the empty string.\<close>

definition falsy :: "string option \<Rightarrow> bool" where
  "falsy q = (case q of None \<Rightarrow> True | Some s \<Rightarrow> s = [])"

definition apply_filter :: "service list \<Rightarrow> string option \<Rightarrow> service list" where
  "apply_filter all_svcs q =
     (case q of
        None \<Rightarrow> all_svcs
      | Some qs \<Rightarrow> if qs = [] then all_svcs else filter_loop (lower qs) all_svcs [])"

section \<open>The session\<close>

text \<open>The marks file: absent, present but not readable as JSON, or a JSON list.\<close>

datatype mfile = Absent | Corrupt | Json "string list"

text \<open>The variables of \<open>main_loop\<close>, and the marks file they are saved to.\<close>

record state =
  marks :: "string list"
  all_services :: "service list"
  filter_q :: "string option"
  services :: "service list"
  cursor :: int
  offset :: int
  status_msg :: string
  marks_file :: mfile

text \<open>The value of \<open>stdscr.getch()\<close>: a curses key constant or a character.\<close>

datatype key = KEY_DOWN | KEY_UP | KEY_NPAGE | KEY_PPAGE | KEY_ENTER | Ch char | OtherKey

text \<open>
  What the outside world answers during one pass of the loop: the terminal height from
  \<open>getmaxyx\<close>, the key, and the answers to the calls the key's branch may make: the unit
  listing, the confirmation dialog, \<open>sudo systemctl action unit\<close>,
  \<open>systemctl is-enabled unit\<close>, the text typed at the search prompt (\<open>None\<close> when
  \<open>getstr\<close> raises) and whether writing the marks file succeeds.
\<close>

record event =
  term_h :: int
  key :: key
  list_units :: proc
  confirm :: bool
  sudo_systemctl :: "string \<Rightarrow> string \<Rightarrow> proc"
  is_enabled :: "string \<Rightarrow> proc"
  typed :: "string option"
  write_ok :: bool

text \<open>How one pass of the loop ends: the loop goes on, it is left by \<open>break\<close>, or an
  exception leaves \<open>main_loop\<close>.\<close>

datatype outcome = Continue state | Break state | Raise error

text \<open>\<open>xs[i]\<close>: a negative index counts from the end, an index out of range raises.\<close>

definition py_index :: "'a list \<Rightarrow> int \<Rightarrow> error + 'a" where
  "py_index xs i =
     (let n = int (length xs); j = (if i < 0 then i + n else i)
      in if 0 \<le> j \<and> j < n then Inr (xs ! nat j) else Inl IndexError)"

definition ensure_config :: "mfile \<Rightarrow> mfile" where
  "ensure_config f = (case f of Absent \<Rightarrow> Json [] | _ \<Rightarrow> f)"

definition load_marks :: "mfile \<Rightarrow> string list" where
  "load_marks f = (case f of Json ms \<Rightarrow> ms | _ \<Rightarrow> [])"

text \<open>\<open>save_marks\<close>: an exception while writing is swallowed; the failing write is taken
  to fail when the file is opened, before it is touched.\<close>

definition save_marks :: "string list \<Rightarrow> bool \<Rightarrow> mfile \<Rightarrow> mfile" where
  "save_marks ms ok f = (if ok then Json ms else f)"

definition prompt_input :: "string option \<Rightarrow> string option" where
  "prompt_input t = (case t of None \<Rightarrow> None | Some s \<Rightarrow> Some (strip s))"

definition clamp_cursor :: "state \<Rightarrow> state" where
  "clamp_cursor st =
     (let st1 = (if cursor st < 0 then st\<lparr>cursor := 0\<rparr> else st) in
      if cursor st1 \<ge> int (length (services st1))
      then st1\<lparr>cursor := max 0 (int (length (services st1)) - 1)\<rparr>
      else st1)"

text \<open>\<open>max_lines\<close> of the loop, from the terminal height: \<open>top = 1\<close>, \<open>bottom = h - 3\<close>.\<close>

definition max_lines :: "int \<Rightarrow> int" where
  "max_lines h = max 1 ((h - 3) - 1 + 1)"

definition scroll :: "int \<Rightarrow> state \<Rightarrow> state" where
  "scroll ml st =
     (if cursor st < offset st then st\<lparr>offset := cursor st\<rparr>
      else if cursor st \<ge> offset st + ml then st\<lparr>offset := cursor st - ml + 1\<rparr>
      else st)"

text \<open>The two search loops: \<open>for i in range(start, len(services))\<close> and
  \<open>for i in range(start, -1, -1)\<close>, leaving at the first match.\<close>

function find_forward :: "string \<Rightarrow> service list \<Rightarrow> int \<Rightarrow> error + int option" where
  "find_forward ql svcs i =
     (if i < int (length svcs)
      then (case py_index svcs i of
              Inl e \<Rightarrow> Inl e
            | Inr s \<Rightarrow> if matches ql s then Inr (Some i) else find_forward ql svcs (i + 1))
      else Inr None)"
  by pat_completeness auto
termination
  by (relation "measure (\<lambda>(ql, svcs, i). nat (int (length svcs) - i))") auto

function find_backward :: "string \<Rightarrow> service list \<Rightarrow> int \<Rightarrow> error + int option" where
  "find_backward ql svcs i =
     (if i > -1
      then (case py_index svcs i of
              Inl e \<Rightarrow> Inl e
            | Inr s \<Rightarrow> if matches ql s then Inr (Some i) else find_backward ql svcs (i - 1))
      else Inr None)"
  by pat_completeness auto
termination
  by (relation "measure (\<lambda>(ql, svcs, i). nat (i + 1))") auto

declare find_forward.simps [simp del] find_backward.simps [simp del]

text \<open>Key \<open>m\<close>.\<close>

definition key_m :: "event \<Rightarrow> state \<Rightarrow> error + state" where
  "key_m ev st =
     (if services st = [] then Inr st
      else (case py_index (services st) (cursor st) of
              Inl e \<Rightarrow> Inl e
            | Inr svc \<Rightarrow>
                (let u = unit svc;
                     st1 = (if u \<in> set (marks st)
                            then st\<lparr>marks := remove1 u (marks st), status_msg := ''unmarked '' @ u\<rparr>
                            else st\<lparr>marks := marks st @ [u], status_msg := ''marked '' @ u\<rparr>)
                 in Inr (st1\<lparr>marks_file := save_marks (marks st1) (write_ok ev) (marks_file st1)\<rparr>))))"

text \<open>One lifecycle command behind its confirmation dialog: \<open>done_msg\<close> is the status text
  of a success.\<close>

definition confirmed_action :: "event \<Rightarrow> string \<Rightarrow> string \<Rightarrow> string \<Rightarrow> state \<Rightarrow> state" where
  "confirmed_action ev act u done_msg st =
     (if confirm ev
      then (case run_action (sudo_systemctl ev act u) of
              (ok2, out) \<Rightarrow>
                st\<lparr>status_msg := (if ok2 then done_msg else ''error: '' @ take 60 (strip out))\<rparr>)
      else st)"

text \<open>The two lines that end the branches of \<open>s\<close> and \<open>e\<close>.\<close>

definition refetch :: "event \<Rightarrow> state \<Rightarrow> error + state" where
  "refetch ev st =
     (case fetch_services (list_units ev) of
        Inl e \<Rightarrow> Inl e
      | Inr svcs \<Rightarrow> Inr (st\<lparr>all_services := svcs, services := apply_filter svcs (filter_q st)\<rparr>))"

text \<open>Key \<open>s\<close>.\<close>

definition key_s :: "event \<Rightarrow> state \<Rightarrow> error + state" where
  "key_s ev st =
     (if services st = [] then Inr st
      else (case py_index (services st) (cursor st) of
              Inl e \<Rightarrow> Inl e
            | Inr svc \<Rightarrow>
                refetch ev
                  (if active svc = ''active''
                   then confirmed_action ev ''stop'' (unit svc) ''stopped'' st
                   else confirmed_action ev ''start'' (unit svc) ''started'' st)))"

text \<open>Key \<open>e\<close>.\<close>

definition key_e :: "event \<Rightarrow> state \<Rightarrow> error + state" where
  "key_e ev st =
     (if services st = [] then Inr st
      else (case py_index (services st) (cursor st) of
              Inl e \<Rightarrow> Inl e
            | Inr svc \<Rightarrow>
                (case is_enabled ev (unit svc) of
                   SpawnError m \<Rightarrow> Inl (OSError m)
                 | Completed rc out err \<Rightarrow>
                     refetch ev
                       (if rc = 0
                        then confirmed_action ev ''disable'' (unit svc) ''disabled'' st
                        else confirmed_action ev ''enable'' (unit svc) ''enabled'' st))))"

text \<open>Key \<open>r\<close>.\<close>

definition key_r :: "event \<Rightarrow> state \<Rightarrow> error + state" where
  "key_r ev st =
     (case refetch ev (st\<lparr>status_msg := ''refreshing...''\<rparr>) of
        Inl e \<Rightarrow> Inl e
      | Inr st1 \<Rightarrow> Inr (st1\<lparr>status_msg := ''refreshed''\<rparr>))"

text \<open>Key \<open>/\<close>.\<close>

definition key_slash :: "event \<Rightarrow> state \<Rightarrow> state" where
  "key_slash ev st =
     (let v = prompt_input (typed ev);
          fq = (if v = None \<or> v = Some [] then None else v)
      in st\<lparr>filter_q := fq, services := apply_filter (all_services st) fq,
             cursor := 0, offset := 0,
             status_msg := (if falsy fq then ''filter cleared''
                            else ''filter set to '' @ [CHR 0x27] @ the fq @ [CHR 0x27])\<rparr>)"

text \<open>Keys \<open>n\<close> and \<open>N\<close>.\<close>

definition key_n :: "state \<Rightarrow> error + state" where
  "key_n st =
     (if \<not> falsy (filter_q st) \<and> services st \<noteq> []
      then (case find_forward (lower (the (filter_q st))) (services st) (cursor st + 1) of
              Inl e \<Rightarrow> Inl e
            | Inr (Some i) \<Rightarrow> Inr (st\<lparr>cursor := i\<rparr>)
            | Inr None \<Rightarrow> Inr (st\<lparr>status_msg := ''no more matches''\<rparr>))
      else Inr st)"

definition key_N :: "state \<Rightarrow> error + state" where
  "key_N st =
     (if \<not> falsy (filter_q st) \<and> services st \<noteq> []
      then (case find_backward (lower (the (filter_q st))) (services st) (cursor st - 1) of
              Inl e \<Rightarrow> Inl e
            | Inr (Some i) \<Rightarrow> Inr (st\<lparr>cursor := i\<rparr>)
            | Inr None \<Rightarrow> Inr (st\<lparr>status_msg := ''no previous match''\<rparr>))
      else Inr st)"

text \<open>Key Enter: the details window shows \<open>services[cursor]\<close> and changes nothing.\<close>

definition key_enter :: "state \<Rightarrow> error + state" where
  "key_enter st =
     (if services st = [] then Inr st
      else (case py_index (services st) (cursor st) of Inl e \<Rightarrow> Inl e | Inr svc \<Rightarrow> Inr st))"

definition proceed :: "error + state \<Rightarrow> outcome" where
  "proceed r = (case r of Inl e \<Rightarrow> Raise e | Inr st \<Rightarrow> Continue st)"

text \<open>The chain of branches on the key, in the order of the source; \<open>ml\<close> is
  \<open>max_lines\<close> of this pass.\<close>

definition handle_key :: "event \<Rightarrow> int \<Rightarrow> state \<Rightarrow> outcome" where
  "handle_key ev ml st =
     (let k = key ev; max_idx = int (length (services st)) - 1 in
      if k = KEY_DOWN \<or> k = Ch CHR ''j'' then Continue (st\<lparr>cursor := min max_idx (cursor st + 1)\<rparr>)
      else if k = KEY_UP \<or> k = Ch CHR ''k'' then Continue (st\<lparr>cursor := max 0 (cursor st - 1)\<rparr>)
      else if k = KEY_NPAGE then Continue (st\<lparr>cursor := min max_idx (cursor st + max 1 (ml - 1))\<rparr>)
      else if k = KEY_PPAGE then Continue (st\<lparr>cursor := max 0 (cursor st - max 1 (ml - 1))\<rparr>)
      else if k = Ch CHR ''q''
        then Break (st\<lparr>marks_file := save_marks (marks st) (write_ok ev) (marks_file st)\<rparr>)
      else if k = Ch CHR ''r'' then proceed (key_r ev st)
      else if k = Ch CHR ''h'' then Continue (st\<lparr>status_msg := ''help closed''\<rparr>)
      else if k = Ch CHR ''m'' then proceed (key_m ev st)
      else if k = Ch CHR 0x0A \<or> k = KEY_ENTER then proceed (key_enter st)
      else if k = Ch CHR ''s'' then proceed (key_s ev st)
      else if k = Ch CHR ''e'' then proceed (key_e ev st)
      else if k = Ch CHR ''/'' then Continue (key_slash ev st)
      else if k = Ch CHR ''n'' then proceed (key_n st)
      else if k = Ch CHR ''N'' then proceed (key_N st)
      else Continue (st\<lparr>status_msg := []\<rparr>))"

text \<open>One pass of \<open>while True\<close>: the state that \<open>draw_main\<close> shows, then the key.\<close>

definition rendered :: "event \<Rightarrow> state \<Rightarrow> state" where
  "rendered ev st = scroll (max_lines (term_h ev)) (clamp_cursor st)"

definition iteration :: "event \<Rightarrow> state \<Rightarrow> outcome" where
  "iteration ev st = handle_key ev (max_lines (term_h ev)) (rendered ev st)"

text \<open>The start of \<open>main_loop\<close>, from the marks file and the first unit listing.\<close>

definition initial :: "mfile \<Rightarrow> proc \<Rightarrow> error + state" where
  "initial f p =
     (let f1 = ensure_config f; ms = load_marks f1 in
      case fetch_services p of
        Inl e \<Rightarrow> Inl e
      | Inr svcs \<Rightarrow>
          Inr \<lparr>marks = ms, all_services = svcs, filter_q = None,
               services = apply_filter svcs None, cursor = 0, offset = 0,
               status_msg = ''ready'', marks_file = f1\<rparr>)"

text \<open>The loop over the passes for which the world has answers: the outcome, and the
  frames drawn, each with the \<open>max_lines\<close> it was scrolled for. The branch of \<open>r\<close>
  draws a second frame before it queries the directory.\<close>

fun run :: "state \<Rightarrow> event list \<Rightarrow> outcome" where
  "run st [] = Continue st"
| "run st (ev # evs) =
     (case iteration ev st of Continue st' \<Rightarrow> run st' evs | Break st' \<Rightarrow> Break st' | Raise e \<Rightarrow> Raise e)"

fun frames :: "state \<Rightarrow> event list \<Rightarrow> (state \<times> int) list" where
  "frames st [] = []"
| "frames st (ev # evs) =
     (rendered ev st, max_lines (term_h ev))
     # (if key ev = Ch CHR ''r''
        then [((rendered ev st)\<lparr>status_msg := ''refreshing...''\<rparr>, max_lines (term_h ev))]
        else [])
     @ (case iteration ev st of Continue st' \<Rightarrow> frames st' evs | _ \<Rightarrow> [])"

definition main_loop_frames :: "mfile \<Rightarrow> proc \<Rightarrow> event list \<Rightarrow> (state \<times> int) list" where
  "main_loop_frames f p evs = (case initial f p of Inl e \<Rightarrow> [] | Inr st \<Rightarrow> frames st evs)"

section \<open>Properties to be checked\<close>

text \<open>The viewport invariant of a drawn frame \<open>st\<close> scrolled for \<open>ml\<close> lines.\<close>

definition viewport_inv :: "state \<Rightarrow> int \<Rightarrow> bool" where
  "viewport_inv st ml =
     (if services st = [] then cursor st = 0
      else 0 \<le> offset st \<and> offset st \<le> cursor st \<and> cursor st < offset st + ml
           \<and> cursor st < int (length (services st)))"

text \<open>
  The positions reached by pressing \<open>n\<close> again and again from cursor \<open>c\<close>, up to
  the first press that finds nothing. The test on \<open>i\<close> serves the termination proof
  only: by \<open>next_visits_result\<close> below it never fails.
\<close>

function next_visits :: "string \<Rightarrow> service list \<Rightarrow> int \<Rightarrow> int list" where
  "next_visits ql svcs c =
     (case find_forward ql svcs (c + 1) of
        Inr (Some i) \<Rightarrow>
          if c < i \<and> i < int (length svcs) then i # next_visits ql svcs i else []
      | _ \<Rightarrow> [])"
  by pat_completeness auto
termination
  by (relation "measure (\<lambda>(ql, svcs, c). nat (int (length svcs) - c))") auto

declare next_visits.simps [simp del]

section \<open>Sample inputs\<close>

text \<open>A pass of the loop in which the terminal has height \<open>h\<close>, the key is \<open>k\<close>, every
  command succeeds printing nothing, dialogs are declined and nothing is typed.\<close>

definition quiet :: "int \<Rightarrow> key \<Rightarrow> event" where
  "quiet h k =
     \<lparr>term_h = h, key = k, list_units = Completed 0 [] [], confirm = False,
      sudo_systemctl = (\<lambda>a u. Completed 0 [] []), is_enabled = (\<lambda>u. Completed 0 [] []),
      typed = None, write_ok = True\<rparr>"

text \<open>\<open>n\<close> running units with the identifiers \<open>u.service\<close>, \<open>uu.service\<close>, ...\<close>

definition sample_units :: "nat \<Rightarrow> service list" where
  "sample_units n =
     map (\<lambda>i. \<lparr>unit = replicate (Suc i) CHR ''u'' @ ''.service'', load = ''loaded'',
                active = ''active'', sub = ''running'', description = ''sample unit''\<rparr>)
       [0..<n]"

text \<open>The state in which \<open>main_loop\<close> starts when the listing gives \<open>svcs\<close> and the
  marks file holds the empty list.\<close>

definition browsing :: "service list \<Rightarrow> state" where
  "browsing svcs =
     \<lparr>marks = [], all_services = svcs, filter_q = None, services = svcs, cursor = 0,
      offset = 0, status_msg = ''ready'', marks_file = Json []\<rparr>"

text \<open>A listing of three units.\<close>

definition sample_listing :: string where
  "sample_listing =
     ''sshd.service loaded active running OpenSSH server daemon'' @ [CHR 0x0A]
     @ ''cups.service loaded inactive dead CUPS Scheduler'' @ [CHR 0x0A]
     @ ''nginx.service loaded active running The nginx HTTP server'' @ [CHR 0x0A]"

text \<open>The units of \<open>sample_listing\<close>.\<close>

definition three_units :: "service list" where
  "three_units =
     [\<lparr>unit = ''sshd.service'', load = ''loaded'', active = ''active'', sub = ''running'',
        description = ''OpenSSH server daemon''\<rparr>,
      \<lparr>unit = ''cups.service'', load = ''loaded'', active = ''inactive'', sub = ''dead'',
        description = ''CUPS Scheduler''\<rparr>,
      \<lparr>unit = ''nginx.service'', load = ''loaded'', active = ''active'', sub = ''running'',
        description = ''The nginx HTTP server''\<rparr>]"

text \<open>Scenario C: the user confirms the stop of \<open>nginx.service\<close>, and
  \<open>sudo systemctl stop nginx.service\<close> fails with \<open>Access denied\<close> on standard error.\<close>

definition denied_stop :: event where
  "denied_stop =
     (quiet 20 (Ch CHR ''s''))
       \<lparr>list_units := Completed 0 sample_listing [], confirm := True,
        sudo_systemctl := (\<lambda>a u. if a = ''stop'' \<and> u = ''nginx.service''
                                  then Completed 1 [] ''Access denied'' else Completed 0 [] [])\<rparr>"

section \<open>The string functions\<close>

lemma starts_with_prefix: "starts_with p s = prefix p s"
  by (induction p s rule: starts_with.induct) auto

lemma contains_sublist: "contains p s = sublist p s"
  by (induction s) (auto simp: starts_with_prefix sublist_Cons_right)

lemma length_split_none: "length (split_none n s) \<le> Suc n"
  by (induction n arbitrary: s) (auto simp: Let_def)

lemma five_fields:
  assumes "length (parts :: string list) = 5"
  shows "parts = [parts ! 0, parts ! 1, parts ! 2, parts ! 3, parts ! 4]"
proof -
  from assms obtain a b c d e where "parts = [a, b, c, d, e]"
    by (auto simp: length_Suc_conv eval_nat_numeral)
  then show ?thesis by simp
qed

section \<open>The directory query\<close>

lemma parse_lines_result:
  "parse_lines ls acc =
     Inr (acc @ map (\<lambda>l. let p = split_none 4 l in
                      \<lparr>unit = p ! 0, load = p ! 1, active = p ! 2, sub = p ! 3, description = p ! 4\<rparr>)
                 (filter (\<lambda>l. 5 \<le> length (split_none 4 l)) ls))"
proof (induction ls arbitrary: acc)
  case Nil
  show ?case by simp
next
  case (Cons l ls)
  show ?case
  proof (cases "length (split_none 4 l) < 5")
    case True
    then show ?thesis using Cons.IH by (simp add: Let_def)
  next
    case False
    have "length (split_none 4 l) \<le> 5" using length_split_none [of 4 l] by simp
    with False have len: "length (split_none 4 l) = 5" by simp
    from five_fields [OF len] obtain a b c d e where
      p: "split_none 4 l = [a, b, c, d, e]" by blast
    show ?thesis using Cons.IH False p by (simp add: Let_def del: split_none.simps)
  qed
qed

lemma fetch_services_completed:
  "\<exists>svcs. fetch_services (Completed rc out err) = Inr svcs"
  by (simp add: fetch_services_def parse_lines_result del: split_none.simps)

text \<open>
  C9. Whatever the listing command prints, \<open>fetch_services\<close> returns without an
  exception; a line that \<open>split(None, 4)\<close> cuts into fewer than five fields gives no
  record, and every other line gives exactly one record, in the order of the lines, whose
  identifier, load state, active state, sub state and description are the five fields in
  this order (\<open>split(None, 4)\<close> never gives more than five).
\<close>

theorem fetch_services_lines:
  "fetch_services (Completed rc out err) =
     Inr (map (\<lambda>l. let p = split_none 4 l in
                 \<lparr>unit = p ! 0, load = p ! 1, active = p ! 2, sub = p ! 3, description = p ! 4\<rparr>)
            (filter (\<lambda>l. 5 \<le> length (split_none 4 l)) (splitlines out)))"
  by (simp add: fetch_services_def parse_lines_result del: split_none.simps)

theorem fetch_services_lines_witness:
  "fetch_services
     (Completed 0 (''sshd.service loaded active running OpenSSH server daemon'' @ [CHR 0x0A]
                   @ ''broken line'' @ [CHR 0x0A]
                   @ ''  cups.service   loaded inactive dead CUPS Scheduler'') []) =
   Inr [\<lparr>unit = ''sshd.service'', load = ''loaded'', active = ''active'', sub = ''running'',
          description = ''OpenSSH server daemon''\<rparr>,
        \<lparr>unit = ''cups.service'', load = ''loaded'', active = ''inactive'', sub = ''dead'',
          description = ''CUPS Scheduler''\<rparr>]"
  apply (subst fetch_services_lines)
  apply code_simp
  done

section \<open>The filter\<close>

lemma filter_loop_filter: "filter_loop ql xs out = out @ filter (matches ql) xs"
  by (induction xs arbitrary: out) auto

lemma apply_filter_truthy:
  "q = Some qs \<Longrightarrow> qs \<noteq> [] \<Longrightarrow> apply_filter L q = filter (matches (lower qs)) L"
  by (simp add: apply_filter_def filter_loop_filter)

lemma apply_filter_falsy: "falsy q \<Longrightarrow> apply_filter L q = L"
  by (auto simp: apply_filter_def falsy_def split: option.splits)

text \<open>
  C2. For every full list \<open>L\<close> and query \<open>q\<close>, \<open>apply_filter L q\<close> is a subsequence
  of \<open>L\<close> in the order of \<open>L\<close>; for a query text \<open>qs\<close>, the lower-cased \<open>qs\<close> is a
  substring of the lower-cased identifier or of the lower-cased description of every
  element of the result, and for a non-empty \<open>qs\<close> the result consists of exactly the
  elements of \<open>L\<close> with this property; for \<open>None\<close> and for the empty text the result
  is \<open>L\<close>.
\<close>

theorem apply_filter_spec:
  "subseq (apply_filter L q) L \<and>
   (\<forall>qs. q = Some qs \<longrightarrow>
      (\<forall>s \<in> set (apply_filter L q).
         sublist (lower qs) (lower (unit s)) \<or> sublist (lower qs) (lower (description s)))) \<and>
   (\<forall>qs. q = Some qs \<and> qs \<noteq> [] \<longrightarrow>
      apply_filter L q =
        filter (\<lambda>s. sublist (lower qs) (lower (unit s))
                     \<or> sublist (lower qs) (lower (description s))) L) \<and>
   (q = None \<or> q = Some [] \<longrightarrow> apply_filter L q = L)"
proof (cases "falsy q")
  case True
  then have eq: "apply_filter L q = L" by (rule apply_filter_falsy)
  from True have "q = None \<or> q = Some []" by (auto simp: falsy_def split: option.splits)
  with eq show ?thesis by (auto simp: lower_def)
next
  case False
  then obtain qs where q: "q = Some qs" "qs \<noteq> []"
    by (auto simp: falsy_def split: option.splits)
  have eq: "apply_filter L q = filter (matches (lower qs)) L"
    using q by (rule apply_filter_truthy)
  have m: "matches (lower qs) =
           (\<lambda>s. sublist (lower qs) (lower (unit s)) \<or> sublist (lower qs) (lower (description s)))"
    by (rule ext) (simp add: matches_def contains_sublist)
  show ?thesis using q eq m by auto
qed

theorem apply_filter_spec_witness:
  "Some ''SSH'' = Some ''SSH'' \<and> ''SSH'' \<noteq> [] \<and>
   subseq
     (apply_filter
        [\<lparr>unit = ''cups.service'', load = ''loaded'', active = ''inactive'', sub = ''dead'',
           description = ''CUPS Scheduler''\<rparr>,
         \<lparr>unit = ''sshd.service'', load = ''loaded'', active = ''active'', sub = ''running'',
           description = ''OpenSSH server daemon''\<rparr>] (Some ''SSH''))
     [\<lparr>unit = ''cups.service'', load = ''loaded'', active = ''inactive'', sub = ''dead'',
        description = ''CUPS Scheduler''\<rparr>,
      \<lparr>unit = ''sshd.service'', load = ''loaded'', active = ''active'', sub = ''running'',
        description = ''OpenSSH server daemon''\<rparr>] \<and>
   apply_filter
     [\<lparr>unit = ''cups.service'', load = ''loaded'', active = ''inactive'', sub = ''dead'',
        description = ''CUPS Scheduler''\<rparr>,
      \<lparr>unit = ''sshd.service'', load = ''loaded'', active = ''active'', sub = ''running'',
        description = ''OpenSSH server daemon''\<rparr>] (Some ''SSH'') =
     [\<lparr>unit = ''sshd.service'', load = ''loaded'', active = ''active'', sub = ''running'',
        description = ''OpenSSH server daemon''\<rparr>]"
proof -
  have "subseq
     (apply_filter
        [\<lparr>unit = ''cups.service'', load = ''loaded'', active = ''inactive'', sub = ''dead'',
           description = ''CUPS Scheduler''\<rparr>,
         \<lparr>unit = ''sshd.service'', load = ''loaded'', active = ''active'', sub = ''running'',
           description = ''OpenSSH server daemon''\<rparr>] (Some ''SSH''))
     [\<lparr>unit = ''cups.service'', load = ''loaded'', active = ''inactive'', sub = ''dead'',
        description = ''CUPS Scheduler''\<rparr>,
      \<lparr>unit = ''sshd.service'', load = ''loaded'', active = ''active'', sub = ''running'',
        description = ''OpenSSH server daemon''\<rparr>]"
    using apply_filter_spec by blast
  moreover have "apply_filter
     [\<lparr>unit = ''cups.service'', load = ''loaded'', active = ''inactive'', sub = ''dead'',
        description = ''CUPS Scheduler''\<rparr>,
      \<lparr>unit = ''sshd.service'', load = ''loaded'', active = ''active'', sub = ''running'',
        description = ''OpenSSH server daemon''\<rparr>] (Some ''SSH'') =
     [\<lparr>unit = ''sshd.service'', load = ''loaded'', active = ''active'', sub = ''running'',
        description = ''OpenSSH server daemon''\<rparr>]"
    by code_simp
  ultimately show ?thesis by simp
qed

section \<open>The viewport\<close>

lemma max_lines_pos: "1 \<le> max_lines h"
  by (simp add: max_lines_def)

lemma clamp_cursor_range:
  "0 \<le> cursor (clamp_cursor st) \<and>
   (services st \<noteq> [] \<longrightarrow> cursor (clamp_cursor st) < int (length (services st))) \<and>
   (services st = [] \<longrightarrow> cursor (clamp_cursor st) = 0) \<and>
   services (clamp_cursor st) = services st \<and> offset (clamp_cursor st) = offset st"
  by (auto simp: clamp_cursor_def Let_def)

lemma scroll_window:
  assumes "1 \<le> ml" "0 \<le> offset st" "0 \<le> cursor st"
  shows "0 \<le> offset (scroll ml st) \<and> offset (scroll ml st) \<le> cursor (scroll ml st) \<and>
         cursor (scroll ml st) < offset (scroll ml st) + ml \<and>
         cursor (scroll ml st) = cursor st \<and> services (scroll ml st) = services st"
  using assms by (auto simp: scroll_def)

lemma rendered_inv:
  assumes "0 \<le> offset st"
  shows "viewport_inv (rendered ev st) (max_lines (term_h ev)) \<and> 0 \<le> offset (rendered ev st)"
proof -
  let ?c = "clamp_cursor st"
  let ?s = "scroll (max_lines (term_h ev)) ?c"
  have c: "0 \<le> cursor ?c" "services ?c = services st" "offset ?c = offset st"
    "services st \<noteq> [] \<longrightarrow> cursor ?c < int (length (services st))"
    "services st = [] \<longrightarrow> cursor ?c = 0"
    using clamp_cursor_range [of st] by auto
  have s: "0 \<le> offset ?s \<and> offset ?s \<le> cursor ?s \<and>
           cursor ?s < offset ?s + max_lines (term_h ev) \<and>
           cursor ?s = cursor ?c \<and> services ?s = services ?c"
    using scroll_window [OF max_lines_pos, of ?c "term_h ev"] assms c by simp
  show ?thesis using s c by (auto simp: viewport_inv_def rendered_def)
qed

text \<open>No branch of the key chain writes \<open>offset\<close>, except the search branch, which
  resets it.\<close>

lemma refetch_offset: "refetch ev st = Inr st' \<Longrightarrow> offset st' = offset st"
  by (auto simp: refetch_def split: sum.splits)

lemma confirmed_action_offset: "offset (confirmed_action ev act u d st) = offset st"
  by (auto simp: confirmed_action_def split: prod.splits)

lemma key_m_offset: "key_m ev st = Inr st' \<Longrightarrow> offset st' = offset st"
  by (auto simp: key_m_def Let_def split: if_splits sum.splits)

lemma key_s_offset: "key_s ev st = Inr st' \<Longrightarrow> offset st' = offset st"
  by (auto simp: key_s_def confirmed_action_offset split: if_splits sum.splits
      dest!: refetch_offset)

lemma key_e_offset: "key_e ev st = Inr st' \<Longrightarrow> offset st' = offset st"
  by (auto simp: key_e_def confirmed_action_offset split: if_splits sum.splits proc.splits
      dest!: refetch_offset)

lemma key_r_offset: "key_r ev st = Inr st' \<Longrightarrow> offset st' = offset st"
  by (auto simp: key_r_def split: sum.splits dest!: refetch_offset)

lemma key_n_offset: "key_n st = Inr st' \<Longrightarrow> offset st' = offset st"
  by (auto simp: key_n_def split: if_splits sum.splits option.splits)

lemma key_N_offset: "key_N st = Inr st' \<Longrightarrow> offset st' = offset st"
  by (auto simp: key_N_def split: if_splits sum.splits option.splits)

lemma key_enter_offset: "key_enter st = Inr st' \<Longrightarrow> offset st' = offset st"
  by (auto simp: key_enter_def split: if_splits sum.splits)

lemma proceed_Continue: "proceed r = Continue st' \<longleftrightarrow> r = Inr st'"
  by (auto simp: proceed_def split: sum.splits)

lemma handle_key_offset:
  assumes "handle_key ev ml st = Continue st'" "0 \<le> offset st"
  shows "0 \<le> offset st'"
proof -
  have "offset st' = offset st \<or> offset st' = 0"
    using assms(1)
    by (auto simp: handle_key_def Let_def proceed_Continue key_slash_def
        split: if_splits
        dest: key_m_offset key_s_offset key_e_offset key_r_offset key_n_offset key_N_offset
          key_enter_offset)
  with assms(2) show ?thesis by auto
qed

lemma frames_inv:
  "0 \<le> offset st \<Longrightarrow> \<forall>(s, ml) \<in> set (frames st evs). viewport_inv s ml"
proof (induction evs arbitrary: st)
  case Nil
  show ?case by simp
next
  case (Cons ev evs)
  have r: "viewport_inv (rendered ev st) (max_lines (term_h ev))" "0 \<le> offset (rendered ev st)"
    using rendered_inv [OF Cons.prems] by auto
  have r2: "viewport_inv ((rendered ev st)\<lparr>status_msg := ''refreshing...''\<rparr>)
              (max_lines (term_h ev))"
    using r(1) by (simp add: viewport_inv_def)
  have rest: "\<forall>(s, ml) \<in> set (case iteration ev st of Continue st' \<Rightarrow> frames st' evs | _ \<Rightarrow> []).
                viewport_inv s ml"
  proof (cases "iteration ev st")
    case (Continue st')
    then have "0 \<le> offset st'"
      using handle_key_offset r(2) by (simp add: iteration_def)
    from Cons.IH [OF this] show ?thesis using Continue by simp
  qed simp_all
  show ?case using r(1) r2 rest by auto
qed

text \<open>
  C1. Whatever the marks file and the first listing are, and whatever keys, terminal
  heights and answers of the outside world follow, every frame that \<open>main_loop\<close> draws
  shows a state with \<open>cursor = 0\<close> when the filtered list is empty, and with
  \<open>0 \<le> offset \<le> cursor < offset + max_lines\<close> and \<open>cursor < len(services)\<close>
  when it is not.
\<close>

theorem viewport_invariant:
  "\<forall>(st, ml) \<in> set (main_loop_frames f p evs). viewport_inv st ml"
proof (cases "initial f p")
  case (Inl e)
  then show ?thesis by (simp add: main_loop_frames_def)
next
  case (Inr st)
  then have "offset st = 0" by (auto simp: initial_def Let_def split: sum.splits)
  then have "\<forall>(s, ml) \<in> set (frames st evs). viewport_inv s ml" by (intro frames_inv) simp
  then show ?thesis using Inr by (simp add: main_loop_frames_def)
qed

theorem viewport_invariant_witness:
  "map (\<lambda>(s, ml). (cursor s, offset s, ml, length (services s)))
     (main_loop_frames Absent (Completed 0 sample_listing [])
        [quiet 4 KEY_DOWN, quiet 4 KEY_NPAGE,
         (quiet 20 (Ch CHR ''/''))\<lparr>typed := Some ''zzz''\<rparr>, quiet 20 KEY_UP]) =
     [(0, 0, 1, 3), (1, 1, 1, 3), (2, 1, 17, 3), (0, 0, 17, 0)] \<and>
   list_all (\<lambda>(s, ml). viewport_inv s ml)
     (main_loop_frames Absent (Completed 0 sample_listing [])
        [quiet 4 KEY_DOWN, quiet 4 KEY_NPAGE,
         (quiet 20 (Ch CHR ''/''))\<lparr>typed := Some ''zzz''\<rparr>, quiet 20 KEY_UP])"
proof -
  have "map (\<lambda>(s, ml). (cursor s, offset s, ml, length (services s)))
     (main_loop_frames Absent (Completed 0 sample_listing [])
        [quiet 4 KEY_DOWN, quiet 4 KEY_NPAGE,
         (quiet 20 (Ch CHR ''/''))\<lparr>typed := Some ''zzz''\<rparr>, quiet 20 KEY_UP]) =
     [(0, 0, 1, 3), (1, 1, 1, 3), (2, 1, 17, 3), (0, 0, 17, 0)]"
    by code_simp
  moreover have "list_all (\<lambda>(s, ml). viewport_inv s ml)
     (main_loop_frames Absent (Completed 0 sample_listing [])
        [quiet 4 KEY_DOWN, quiet 4 KEY_NPAGE,
         (quiet 20 (Ch CHR ''/''))\<lparr>typed := Some ''zzz''\<rparr>, quiet 20 KEY_UP])"
    using viewport_invariant by (simp add: list_all_iff)
  ultimately show ?thesis by simp
qed

text \<open>Scenario A: moving down a list of fifty units in a window of ten lines.\<close>

lemma rendered_down:
  assumes "max_lines (term_h ev) = 10" "0 \<le> cursor st" "cursor st < int (length (services st))"
    "offset st = max 0 (cursor st - 9) \<or> offset st = max 0 (cursor st - 10)"
  shows "rendered ev st = st\<lparr>offset := max 0 (cursor st - 9)\<rparr>"
  using assms
  by (cases st) (auto simp: rendered_def clamp_cursor_def scroll_def Let_def max_def split: if_splits)

lemma iteration_down:
  assumes "key ev = KEY_DOWN \<or> key ev = Ch CHR ''j''" "max_lines (term_h ev) = 10"
    "0 \<le> cursor st" "cursor st + 1 < int (length (services st))"
    "offset st = max 0 (cursor st - 9) \<or> offset st = max 0 (cursor st - 10)"
  shows "iteration ev st = Continue (st\<lparr>offset := max 0 (cursor st - 9), cursor := cursor st + 1\<rparr>)"
proof -
  have "rendered ev st = st\<lparr>offset := max 0 (cursor st - 9)\<rparr>"
    using assms by (intro rendered_down) auto
  then show ?thesis using assms(1,4) by (auto simp: iteration_def handle_key_def Let_def)
qed

lemma downs:
  assumes "\<forall>ev \<in> set evs. (key ev = KEY_DOWN \<or> key ev = Ch CHR ''j'') \<and> max_lines (term_h ev) = 10"
    "0 \<le> cursor st" "cursor st + int (length evs) < int (length (services st))"
    "offset st = max 0 (cursor st - 9) \<or> offset st = max 0 (cursor st - 10)"
  shows "\<exists>st'. run st evs = Continue st' \<and> cursor st' = cursor st + int (length evs) \<and>
           (offset st' = max 0 (cursor st' - 9) \<or> offset st' = max 0 (cursor st' - 10)) \<and>
           services st' = services st \<and>
           map (\<lambda>(s, ml). (cursor s, offset s)) (frames st evs) =
             map (\<lambda>k. (cursor st + int k, max 0 (cursor st + int k - 9))) [0..<length evs]"
  using assms
proof (induction evs arbitrary: st)
  case Nil
  then show ?case by simp
next
  case (Cons ev evs)
  let ?st1 = "st\<lparr>offset := max 0 (cursor st - 9), cursor := cursor st + 1\<rparr>"
  have k: "key ev = KEY_DOWN \<or> key ev = Ch CHR ''j''" and h: "max_lines (term_h ev) = 10"
    using Cons.prems(1) by auto
  have it: "iteration ev st = Continue ?st1"
    using k h Cons.prems(2,3,4) by (intro iteration_down) auto
  have rd: "rendered ev st = st\<lparr>offset := max 0 (cursor st - 9)\<rparr>"
    using h Cons.prems(2,3,4) by (intro rendered_down) auto
  have nr: "key ev \<noteq> Ch CHR ''r''" using k by auto
  have "\<exists>st'. run ?st1 evs = Continue st' \<and> cursor st' = cursor ?st1 + int (length evs) \<and>
           (offset st' = max 0 (cursor st' - 9) \<or> offset st' = max 0 (cursor st' - 10)) \<and>
           services st' = services ?st1 \<and>
           map (\<lambda>(s, ml). (cursor s, offset s)) (frames ?st1 evs) =
             map (\<lambda>k. (cursor ?st1 + int k, max 0 (cursor ?st1 + int k - 9))) [0..<length evs]"
    using Cons.prems by (intro Cons.IH) auto
  then obtain st' where st': "run ?st1 evs = Continue st'"
      "cursor st' = cursor st + 1 + int (length evs)"
      "offset st' = max 0 (cursor st' - 9) \<or> offset st' = max 0 (cursor st' - 10)"
      "services st' = services st"
      "map (\<lambda>(s, ml). (cursor s, offset s)) (frames ?st1 evs) =
             map (\<lambda>k. (cursor st + 1 + int k, max 0 (cursor st + 1 + int k - 9))) [0..<length evs]"
    by auto
  have fr: "map (\<lambda>(s, ml). (cursor s, offset s)) (frames st (ev # evs)) =
        (cursor st, max 0 (cursor st - 9)) # map (\<lambda>(s, ml). (cursor s, offset s)) (frames ?st1 evs)"
    using it rd nr by simp
  have up: "[0..<length (ev # evs)] = 0 # map Suc [0..<length evs]"
    by (simp add: upt_conv_Cons map_Suc_upt del: upt_Suc)
  have "map (\<lambda>(s, ml). (cursor s, offset s)) (frames st (ev # evs)) =
        map (\<lambda>k. (cursor st + int k, max 0 (cursor st + int k - 9))) [0..<length (ev # evs)]"
    unfolding fr up st'(5) by (simp add: o_def add.assoc)
  then show ?case using it st' by auto
qed

text \<open>
  C5. From cursor 0 and offset 0 on a filtered list of 50 units, with \<open>max_lines = 10\<close>
  in every pass, twelve presses of the down key (\<open>KEY_DOWN\<close> or \<open>j\<close>) are all
  accepted; the twelve frames drawn before them show the cursors 0 to 11 with offset 0 up
  to cursor 9, offset 1 at cursor 10 and offset 2 at cursor 11, and the frame drawn
  after the twelfth press shows cursor 12 and offset 3.
\<close>

theorem scenario_A:
  assumes "length (services st) = 50" "cursor st = 0" "offset st = 0" "length evs = 12"
    "\<forall>ev \<in> set evs. (key ev = KEY_DOWN \<or> key ev = Ch CHR ''j'') \<and> max_lines (term_h ev) = 10"
    "max_lines (term_h ev') = 10"
  shows "\<exists>st'. run st evs = Continue st' \<and>
           map (\<lambda>(s, ml). (cursor s, offset s)) (frames st evs) =
             [(0, 0), (1, 0), (2, 0), (3, 0), (4, 0), (5, 0), (6, 0), (7, 0), (8, 0), (9, 0),
              (10, 1), (11, 2)] \<and>
           cursor (rendered ev' st') = 12 \<and> offset (rendered ev' st') = 3"
proof -
  from downs [of evs st] assms obtain st' where st': "run st evs = Continue st'"
      "cursor st' = 12" "offset st' = max 0 (cursor st' - 9) \<or> offset st' = max 0 (cursor st' - 10)"
      "services st' = services st"
      "map (\<lambda>(s, ml). (cursor s, offset s)) (frames st evs) =
             map (\<lambda>k. (int k, max 0 (int k - 9))) [0..<12]"
    by auto
  have "rendered ev' st' = st'\<lparr>offset := max 0 (cursor st' - 9)\<rparr>"
    using assms(1,6) st' by (intro rendered_down) auto
  then have r: "cursor (rendered ev' st') = 12" "offset (rendered ev' st') = 3"
    using st'(2) by auto
  have "map (\<lambda>k. (int k, max 0 (int k - 9))) [0..<12] =
        [(0, 0), (1, 0), (2, 0), (3, 0), (4, 0), (5, 0), (6, 0), (7, 0), (8, 0), (9, 0),
              (10, 1), (11, 2)]"
    by code_simp
  with st' r show ?thesis by auto
qed

theorem scenario_A_witness:
  "\<exists>st'. run (browsing (sample_units 50)) (replicate 12 (quiet 13 KEY_DOWN)) = Continue st' \<and>
           map (\<lambda>(s, ml). (cursor s, offset s))
             (frames (browsing (sample_units 50)) (replicate 12 (quiet 13 KEY_DOWN))) =
             [(0, 0), (1, 0), (2, 0), (3, 0), (4, 0), (5, 0), (6, 0), (7, 0), (8, 0), (9, 0),
              (10, 1), (11, 2)] \<and>
           cursor (rendered (quiet 13 OtherKey) st') = 12 \<and>
           offset (rendered (quiet 13 OtherKey) st') = 3"
  by (rule scenario_A) (simp_all add: browsing_def sample_units_def quiet_def max_lines_def)

section \<open>The key branches\<close>

lemma handle_key_slash: "key ev = Ch CHR ''/'' \<Longrightarrow> handle_key ev ml st = Continue (key_slash ev st)"
  by (simp add: handle_key_def Let_def)

lemma handle_key_n: "key ev = Ch CHR ''n'' \<Longrightarrow> handle_key ev ml st = proceed (key_n st)"
  by (simp add: handle_key_def Let_def)

lemma handle_key_N: "key ev = Ch CHR ''N'' \<Longrightarrow> handle_key ev ml st = proceed (key_N st)"
  by (simp add: handle_key_def Let_def)

lemma sample_listing_units: "fetch_services (Completed 0 sample_listing []) = Inr three_units"
  by code_simp

text \<open>
  C6. In every state, the branch of \<open>/\<close> sets the query to the text that the prompt
  returns (the typed text without the whitespace around it), or to \<open>None\<close> when the
  prompt returns nothing or the empty text, sets the filtered list to the filter of the
  current full list with this query, and sets cursor and offset to 0; the full list and
  the marks are not touched.
\<close>

theorem search_submit:
  assumes "key ev = Ch CHR ''/''"
  shows "\<exists>st'. handle_key ev ml st = Continue st' \<and>
           filter_q st' =
             (case prompt_input (typed ev) of
                None \<Rightarrow> None
              | Some t \<Rightarrow> if t = [] then None else Some t) \<and>
           all_services st' = all_services st \<and>
           services st' = apply_filter (all_services st) (filter_q st') \<and>
           cursor st' = 0 \<and> offset st' = 0 \<and> marks st' = marks st"
  unfolding handle_key_slash [OF assms]
  by (simp add: key_slash_def Let_def split: option.splits)

theorem search_submit_witness:
  "\<exists>st'. handle_key ((quiet 20 (Ch CHR ''/''))\<lparr>typed := Some ''  SSH ''\<rparr>) 17
            ((browsing three_units)\<lparr>cursor := 2, offset := 1\<rparr>) = Continue st' \<and>
           filter_q st' = Some ''SSH'' \<and>
           all_services st' = three_units \<and>
           services st' = apply_filter three_units (filter_q st') \<and>
           cursor st' = 0 \<and> offset st' = 0 \<and> marks st' = []"
proof -
  have p: "prompt_input (Some ''  SSH '') = Some ''SSH''" by code_simp
  show ?thesis
    using search_submit [of "(quiet 20 (Ch CHR ''/''))\<lparr>typed := Some ''  SSH ''\<rparr>" 17
        "(browsing three_units)\<lparr>cursor := 2, offset := 1\<rparr>"] p
    by (simp add: quiet_def browsing_def)
qed

text \<open>
  C10. When the query is \<open>None\<close> or the filtered list is empty, the branches of \<open>n\<close>
  and \<open>N\<close> leave the whole state as it is: cursor, offset, filtered list and status
  message included.
\<close>

theorem match_keys_idle:
  assumes "key ev = Ch CHR ''n'' \<or> key ev = Ch CHR ''N''"
    "filter_q st = None \<or> services st = []"
  shows "handle_key ev ml st = Continue st"
proof -
  have "key_n st = Inr st" "key_N st = Inr st"
    using assms(2) by (auto simp: key_n_def key_N_def falsy_def)
  then show ?thesis using assms(1) by (auto simp: handle_key_n handle_key_N proceed_def)
qed

theorem match_keys_idle_witness:
  "handle_key (quiet 20 (Ch CHR ''n'')) 17 ((browsing three_units)\<lparr>cursor := 1\<rparr>) =
     Continue ((browsing three_units)\<lparr>cursor := 1\<rparr>) \<and>
   handle_key (quiet 20 (Ch CHR ''N'')) 17 ((browsing [])\<lparr>filter_q := Some ''zzz''\<rparr>) =
     Continue ((browsing [])\<lparr>filter_q := Some ''zzz''\<rparr>)"
  using match_keys_idle [of "quiet 20 (Ch CHR ''n'')" "(browsing three_units)\<lparr>cursor := 1\<rparr>" 17]
    match_keys_idle [of "quiet 20 (Ch CHR ''N'')" "(browsing [])\<lparr>filter_q := Some ''zzz''\<rparr>" 17]
  by (simp add: quiet_def browsing_def)

lemma py_index_in_range:
  "0 \<le> i \<Longrightarrow> i < int (length xs) \<Longrightarrow> py_index xs i = Inr (xs ! nat i)"
  by (simp add: py_index_def)

lemma handle_key_s: "key ev = Ch CHR ''s'' \<Longrightarrow> handle_key ev ml st = proceed (key_s ev st)"
  by (simp add: handle_key_def Let_def)

lemma handle_key_e: "key ev = Ch CHR ''e'' \<Longrightarrow> handle_key ev ml st = proceed (key_e ev st)"
  by (simp add: handle_key_def Let_def)

lemma handle_key_r: "key ev = Ch CHR ''r'' \<Longrightarrow> handle_key ev ml st = proceed (key_r ev st)"
  by (simp add: handle_key_def Let_def)

lemma handle_key_m: "key ev = Ch CHR ''m'' \<Longrightarrow> handle_key ev ml st = proceed (key_m ev st)"
  by (simp add: handle_key_def Let_def)

lemma refetch_completed:
  assumes "list_units ev = Completed rc out err"
  shows "\<exists>svcs. fetch_services (list_units ev) = Inr svcs \<and>
           refetch ev st = Inr (st\<lparr>all_services := svcs, services := apply_filter svcs (filter_q st)\<rparr>)"
  using fetch_services_completed [of rc out err] assms by (auto simp: refetch_def)

lemma confirmed_action_failed:
  assumes "confirm ev" "run_action (sudo_systemctl ev act u) = (False, diag)"
  shows "confirmed_action ev act u d st = st\<lparr>status_msg := ''error: '' @ take 60 (strip diag)\<rparr>"
  using assms by (simp add: confirmed_action_def)

text \<open>
  C8. When the confirmed command of the \<open>s\<close> or \<open>e\<close> branch fails (\<open>run_action\<close>
  returns \<open>False\<close> with the text \<open>diag\<close>) and the listing command can be run, the
  status message becomes \<open>error: \<close> followed by the first 60 characters of the stripped
  \<open>diag\<close>, the full list is fetched again and the filtered list is the filter of the new
  full list with the unchanged query.
\<close>

theorem action_failure:
  assumes "services st \<noteq> []" "0 \<le> cursor st" "cursor st < int (length (services st))"
    and "svc = services st ! nat (cursor st)"
    and "confirm ev"
    and "(key ev = Ch CHR ''s'' \<and> act = (if active svc = ''active'' then ''stop'' else ''start''))
       \<or> (key ev = Ch CHR ''e'' \<and>
           (\<exists>rc out err. is_enabled ev (unit svc) = Completed rc out err \<and>
              act = (if rc = 0 then ''disable'' else ''enable'')))"
    and "run_action (sudo_systemctl ev act (unit svc)) = (False, diag)"
    and "list_units ev = Completed rc' out' err'"
  shows "\<exists>svcs. fetch_services (list_units ev) = Inr svcs \<and>
           handle_key ev ml st =
             Continue (st\<lparr>status_msg := ''error: '' @ take 60 (strip diag),
                          all_services := svcs,
                          services := apply_filter svcs (filter_q st)\<rparr>)"
proof -
  let ?st1 = "st\<lparr>status_msg := ''error: '' @ take 60 (strip diag)\<rparr>"
  have idx: "py_index (services st) (cursor st) = Inr svc"
    using assms(2,3,4) by (simp add: py_index_in_range)
  from refetch_completed [OF assms(8), of ?st1] obtain svcs where
    svcs: "fetch_services (list_units ev) = Inr svcs"
      "refetch ev ?st1 = Inr (?st1\<lparr>all_services := svcs, services := apply_filter svcs (filter_q ?st1)\<rparr>)"
    by blast
  have ca: "\<And>d. confirmed_action ev act (unit svc) d st = ?st1"
    using assms(5,7) by (rule confirmed_action_failed)
  from assms(6) have "handle_key ev ml st = proceed (refetch ev ?st1)"
  proof
    assume s: "key ev = Ch CHR ''s'' \<and> act = (if active svc = ''active'' then ''stop'' else ''start'')"
    then have "key_s ev st = refetch ev ?st1"
      using assms(1) idx ca [of "''stopped''"] ca [of "''started''"] by (auto simp: key_s_def)
    with s show ?thesis by (simp add: handle_key_s)
  next
    assume e: "key ev = Ch CHR ''e'' \<and>
           (\<exists>rc out err. is_enabled ev (unit svc) = Completed rc out err \<and>
              act = (if rc = 0 then ''disable'' else ''enable''))"
    then have "key_e ev st = refetch ev ?st1"
      using assms(1) idx ca [of "''disabled''"] ca [of "''enabled''"] by (auto simp: key_e_def)
    with e show ?thesis by (simp add: handle_key_e)
  qed
  with svcs show ?thesis by (auto simp: proceed_def)
qed

theorem action_failure_witness:
  "handle_key denied_stop 17 ((browsing three_units)\<lparr>cursor := 2\<rparr>) =
     Continue ((browsing three_units)
                 \<lparr>cursor := 2, status_msg := ''error: Access denied'',
                  all_services := three_units, services := three_units\<rparr>)"
proof -
  have d: "take 60 (strip ''Access denied'') = ''Access denied''" by code_simp
  have u: "three_units ! 2 = \<lparr>unit = ''nginx.service'', load = ''loaded'', active = ''active'',
             sub = ''running'', description = ''The nginx HTTP server''\<rparr>"
    by (simp add: three_units_def)
  have l: "list_units denied_stop = Completed 0 sample_listing []"
    by (simp add: denied_stop_def quiet_def)
  have "\<exists>svcs. fetch_services (list_units denied_stop) = Inr svcs \<and>
           handle_key denied_stop 17 ((browsing three_units)\<lparr>cursor := 2\<rparr>) =
             Continue ((browsing three_units)\<lparr>cursor := 2\<rparr>
                         \<lparr>status_msg := ''error: '' @ take 60 (strip ''Access denied''),
                          all_services := svcs,
                          services := apply_filter svcs (filter_q ((browsing three_units)\<lparr>cursor := 2\<rparr>))\<rparr>)"
    by (rule action_failure [where svc = "three_units ! 2" and act = "''stop''", OF _ _ _ _ _ _ _ l])
      (simp_all add: u browsing_def denied_stop_def quiet_def run_action_def three_units_def)
  then show ?thesis
    by (auto simp: l sample_listing_units d browsing_def apply_filter_def)
qed

lemma fetch_services_nothing: "fetch_services (Completed rc [] err) = Inr []"
  by (simp add: fetch_services_def splitlines_def)

text \<open>
  C3, as the code has it. When \<open>r\<close> is pressed and the listing command runs, whatever
  its exit status, nothing is raised, the status message becomes \<open>refreshed\<close>, the
  full list becomes the units parsed from what the command printed (none when it printed
  nothing) and the filtered list the filter of that list: the previous view is replaced.
\<close>

theorem refresh_replaces_view:
  assumes "key ev = Ch CHR ''r''" "list_units ev = Completed rc out err"
  shows "\<exists>svcs. fetch_services (list_units ev) = Inr svcs \<and>
           (out = [] \<longrightarrow> svcs = []) \<and>
           handle_key ev ml st =
             Continue (st\<lparr>all_services := svcs, services := apply_filter svcs (filter_q st),
                          status_msg := ''refreshed''\<rparr>)"
proof -
  let ?st1 = "st\<lparr>status_msg := ''refreshing...''\<rparr>"
  from refetch_completed [OF assms(2), of ?st1] obtain svcs where
    svcs: "fetch_services (list_units ev) = Inr svcs"
      "refetch ev ?st1 = Inr (?st1\<lparr>all_services := svcs, services := apply_filter svcs (filter_q ?st1)\<rparr>)"
    by blast
  have "out = [] \<longrightarrow> svcs = []"
    using svcs(1) assms(2) by (auto simp: fetch_services_nothing)
  moreover have "handle_key ev ml st =
             Continue (st\<lparr>all_services := svcs, services := apply_filter svcs (filter_q st),
                          status_msg := ''refreshed''\<rparr>)"
    using svcs(2) by (simp add: handle_key_r [OF assms(1)] key_r_def proceed_def)
  ultimately show ?thesis using svcs(1) by blast
qed

theorem refresh_replaces_view_witness:
  "handle_key
     ((quiet 20 (Ch CHR ''r''))\<lparr>list_units := Completed 1 [] ''Failed to connect to bus''\<rparr>) 17
     (browsing three_units) =
   Continue ((browsing three_units)\<lparr>all_services := [], services := [],
                                    status_msg := ''refreshed''\<rparr>)"
  using refresh_replaces_view
    [of "(quiet 20 (Ch CHR ''r''))\<lparr>list_units := Completed 1 [] ''Failed to connect to bus''\<rparr>"
      1 "[]" "''Failed to connect to bus''" 17 "browsing three_units"]
  by (auto simp: quiet_def browsing_def apply_filter_def)

text \<open>
  The claim as stated fails: a listing command that exits with status 1 and prints
  nothing empties a view of three units under the message \<open>refreshed\<close>, and a listing
  command that cannot be started raises out of the loop.
\<close>

theorem refresh_failure_counterexample:
  "services (browsing three_units) = three_units \<and> three_units \<noteq> [] \<and>
   run (browsing three_units)
     [(quiet 20 (Ch CHR ''r''))\<lparr>list_units := Completed 1 [] ''Failed to connect to bus''\<rparr>] =
     Continue ((browsing three_units)\<lparr>all_services := [], services := [],
                                      status_msg := ''refreshed''\<rparr>) \<and>
   run (browsing three_units)
     [(quiet 20 (Ch CHR ''r''))\<lparr>list_units := SpawnError ''No such file or directory''\<rparr>] =
     Raise (OSError ''No such file or directory'')"
  by code_simp

section \<open>Marks\<close>

lemma key_m_marks:
  assumes "services st \<noteq> []" "0 \<le> cursor st" "cursor st < int (length (services st))"
  shows "key_m ev st =
     Inr (let u = unit (services st ! nat (cursor st));
              ms = (if u \<in> set (marks st) then remove1 u (marks st) else marks st @ [u])
          in st\<lparr>marks := ms,
                status_msg := (if u \<in> set (marks st) then ''unmarked '' @ u else ''marked '' @ u),
                marks_file := save_marks ms (write_ok ev) (marks_file st)\<rparr>)"
  using assms by (simp add: key_m_def py_index_in_range Let_def)

text \<open>
  C7, as the code has it. On a mark list without duplicates, the branch of \<open>m\<close> flips
  the membership of the selected identifier and of no other; a second press restores the
  set of marked identifiers; the list stays free of duplicates; and each press writes
  the new list to the marks file before the next key is read, which then holds it
  provided the write succeeds.
\<close>

theorem mark_toggle_twice:
  assumes "key ev1 = Ch CHR ''m''" "key ev2 = Ch CHR ''m''"
    and "services st \<noteq> []" "0 \<le> cursor st" "cursor st < int (length (services st))"
    and "u = unit (services st ! nat (cursor st))"
    and "distinct (marks st)"
  shows "\<exists>st1 st2. handle_key ev1 ml st = Continue st1 \<and> handle_key ev2 ml' st1 = Continue st2 \<and>
           (u \<in> set (marks st1) \<longleftrightarrow> u \<notin> set (marks st)) \<and>
           set (marks st1) - {u} = set (marks st) - {u} \<and>
           set (marks st2) = set (marks st) \<and>
           distinct (marks st1) \<and> distinct (marks st2) \<and>
           (write_ok ev1 \<longrightarrow> marks_file st1 = Json (marks st1)) \<and>
           (write_ok ev2 \<longrightarrow> marks_file st2 = Json (marks st2))"
proof -
  let ?ms1 = "if u \<in> set (marks st) then remove1 u (marks st) else marks st @ [u]"
  let ?st1 = "st\<lparr>marks := ?ms1,
                status_msg := (if u \<in> set (marks st) then ''unmarked '' @ u else ''marked '' @ u),
                marks_file := save_marks ?ms1 (write_ok ev1) (marks_file st)\<rparr>"
  have k1: "key_m ev1 st = Inr ?st1"
    using key_m_marks [OF assms(3,4,5), of ev1] assms(6) by (simp add: Let_def)
  let ?ms2 = "if u \<in> set ?ms1 then remove1 u ?ms1 else ?ms1 @ [u]"
  let ?st2 = "?st1\<lparr>marks := ?ms2,
                status_msg := (if u \<in> set ?ms1 then ''unmarked '' @ u else ''marked '' @ u),
                marks_file := save_marks ?ms2 (write_ok ev2) (marks_file ?st1)\<rparr>"
  have "key_m ev2 ?st1 = Inr ?st2"
    using key_m_marks [of ?st1 ev2] assms(3,4,5,6) by (simp add: Let_def)
  then have k2: "handle_key ev2 ml' ?st1 = Continue ?st2"
    by (simp add: handle_key_m [OF assms(2)] proceed_def)
  have h1: "handle_key ev1 ml st = Continue ?st1"
    using k1 by (simp add: handle_key_m [OF assms(1)] proceed_def)
  have m1: "(u \<in> set ?ms1 \<longleftrightarrow> u \<notin> set (marks st))" "distinct ?ms1"
      "set ?ms1 - {u} = set (marks st) - {u}"
    using assms(7) by (auto simp: set_remove1_eq)
  have m2: "set ?ms2 = set (marks st)" "distinct ?ms2"
    using assms(7) by (auto simp: set_remove1_eq remove1_append)
  have "(u \<in> set (marks ?st1) \<longleftrightarrow> u \<notin> set (marks st)) \<and>
           set (marks ?st1) - {u} = set (marks st) - {u} \<and>
           set (marks ?st2) = set (marks st) \<and>
           distinct (marks ?st1) \<and> distinct (marks ?st2) \<and>
           (write_ok ev1 \<longrightarrow> marks_file ?st1 = Json (marks ?st1)) \<and>
           (write_ok ev2 \<longrightarrow> marks_file ?st2 = Json (marks ?st2))"
    using m1 m2 by (simp add: save_marks_def)
  with h1 k2 show ?thesis by blast
qed

theorem mark_toggle_twice_witness:
  "\<exists>st1 st2. handle_key (quiet 20 (Ch CHR ''m'')) 17 (browsing three_units) = Continue st1 \<and>
           handle_key (quiet 20 (Ch CHR ''m'')) 17 st1 = Continue st2 \<and>
           (''sshd.service'' \<in> set (marks st1) \<longleftrightarrow> ''sshd.service'' \<notin> set (marks (browsing three_units))) \<and>
           set (marks st1) - {''sshd.service''} = set (marks (browsing three_units)) - {''sshd.service''} \<and>
           set (marks st2) = set (marks (browsing three_units)) \<and>
           distinct (marks st1) \<and> distinct (marks st2) \<and>
           marks_file st1 = Json (marks st1) \<and> marks_file st2 = Json (marks st2)"
proof -
  have h1: "key (quiet 20 (Ch CHR ''m'')) = Ch CHR ''m''" by (simp add: quiet_def)
  have h3: "services (browsing three_units) \<noteq> []" by (simp add: browsing_def three_units_def)
  have h4: "0 \<le> cursor (browsing three_units)" by (simp add: browsing_def)
  have h5: "cursor (browsing three_units) < int (length (services (browsing three_units)))"
    by (simp add: browsing_def three_units_def)
  have h6: "''sshd.service'' =
            unit (services (browsing three_units) ! nat (cursor (browsing three_units)))"
    by (simp add: browsing_def three_units_def)
  have h7: "distinct (marks (browsing three_units))" by (simp add: browsing_def)
  have w: "write_ok (quiet 20 (Ch CHR ''m''))" by (simp add: quiet_def)
  show ?thesis
    using mark_toggle_twice [OF h1 h1 h3 h4 h5 h6 h7, of 17 17] by (simp only: w simp_thms)
qed

text \<open>
  The claim as stated fails on a mark list that holds an identifier twice, as a marks
  file may: \<open>list.remove\<close> takes out one occurrence, so the identifier is still marked
  after one press and unmarked after two. And a write that fails is swallowed, leaving
  the file without the new mark.
\<close>

theorem mark_toggle_counterexample:
  "initial (Json [''sshd.service'', ''sshd.service'']) (Completed 0 sample_listing []) =
     Inr ((browsing three_units)\<lparr>marks := [''sshd.service'', ''sshd.service''],
                                marks_file := Json [''sshd.service'', ''sshd.service'']\<rparr>) \<and>
   run ((browsing three_units)\<lparr>marks := [''sshd.service'', ''sshd.service''],
                              marks_file := Json [''sshd.service'', ''sshd.service'']\<rparr>)
     [quiet 20 (Ch CHR ''m''), quiet 20 (Ch CHR ''m'')] =
     Continue ((browsing three_units)\<lparr>marks := [], status_msg := ''unmarked sshd.service'',
                                      marks_file := Json []\<rparr>) \<and>
   run (browsing three_units) [(quiet 20 (Ch CHR ''m''))\<lparr>write_ok := False\<rparr>] =
     Continue ((browsing three_units)\<lparr>marks := [''sshd.service''],
                                      status_msg := ''marked sshd.service'',
                                      marks_file := Json []\<rparr>)"
  by code_simp

section \<open>The match navigator\<close>

lemma filter_upt_first:
  "filter P [a..<b] = j # rest \<Longrightarrow> a \<le> j \<and> j < b \<and> P j \<and> rest = filter P [Suc j..<b]"
proof (induction "b - a" arbitrary: a)
  case 0
  then show ?case by simp
next
  case (Suc n)
  then have ab: "a < b" by simp
  then have up: "[a..<b] = a # [Suc a..<b]" by (simp add: upt_conv_Cons)
  show ?case
  proof (cases "P a")
    case True
    with Suc.prems up show ?thesis using ab by auto
  next
    case False
    with Suc.prems up have "filter P [Suc a..<b] = j # rest" by simp
    moreover have "n = b - Suc a" using Suc.hyps(2) by simp
    ultimately have "Suc a \<le> j \<and> j < b \<and> P j \<and> rest = filter P [Suc j..<b]"
      by (rule Suc.hyps(1) [rotated])
    then show ?thesis by simp
  qed
qed

lemma find_forward_result:
  "0 \<le> i \<Longrightarrow>
   find_forward ql svcs i =
     Inr (case filter (\<lambda>j. matches ql (svcs ! j)) [nat i..<length svcs] of
            [] \<Rightarrow> None
          | j # _ \<Rightarrow> Some (int j))"
proof (induction ql svcs i rule: find_forward.induct)
  case (1 ql svcs i)
  show ?case
  proof (cases "i < int (length svcs)")
    case False
    then show ?thesis using "1.prems" by (simp add: find_forward.simps [of ql svcs i])
  next
    case True
    then have idx: "py_index svcs i = Inr (svcs ! nat i)"
      using "1.prems" by (simp add: py_index_in_range)
    have up: "[nat i..<length svcs] = nat i # [nat (i + 1)..<length svcs]"
      using True "1.prems" by (simp add: upt_conv_Cons nat_add_distrib)
    show ?thesis
    proof (cases "matches ql (svcs ! nat i)")
      case m: True
      then show ?thesis
        using True idx up "1.prems" by (simp add: find_forward.simps [of ql svcs i])
    next
      case m: False
      have "find_forward ql svcs (i + 1) =
            Inr (case filter (\<lambda>j. matches ql (svcs ! j)) [nat (i + 1)..<length svcs] of
                   [] \<Rightarrow> None
                 | j # _ \<Rightarrow> Some (int j))"
        using "1.IH" [OF True idx m] "1.prems" by simp
      then show ?thesis
        using True idx up m by (simp add: find_forward.simps [of ql svcs i])
    qed
  qed
qed

lemma find_backward_result:
  "- 1 \<le> i \<Longrightarrow> i < int (length svcs) \<Longrightarrow>
   find_backward ql svcs i =
     Inr (case filter (\<lambda>j. matches ql (svcs ! j)) (rev [0..<nat (i + 1)]) of
            [] \<Rightarrow> None
          | j # _ \<Rightarrow> Some (int j))"
proof (induction ql svcs i rule: find_backward.induct)
  case (1 ql svcs i)
  show ?case
  proof (cases "i > - 1")
    case False
    then have "i = - 1" using "1.prems" by simp
    then show ?thesis by (simp add: find_backward.simps [of ql svcs "- 1"])
  next
    case True
    then have i0: "0 \<le> i" by simp
    then have idx: "py_index svcs i = Inr (svcs ! nat i)"
      using "1.prems" by (simp add: py_index_in_range)
    have "nat (i + 1) = Suc (nat i)" using i0 by simp
    then have up: "rev [0..<nat (i + 1)] = nat i # rev [0..<nat i]" by simp
    show ?thesis
    proof (cases "matches ql (svcs ! nat i)")
      case m: True
      then show ?thesis
        using True idx up i0 by (simp add: find_backward.simps [of ql svcs i])
    next
      case m: False
      have "find_backward ql svcs (i - 1) =
            Inr (case filter (\<lambda>j. matches ql (svcs ! j)) (rev [0..<nat (i - 1 + 1)]) of
                   [] \<Rightarrow> None
                 | j # _ \<Rightarrow> Some (int j))"
        using "1.IH" [OF True idx m] "1.prems" i0 by simp
      then show ?thesis
        using True idx up m by (simp add: find_backward.simps [of ql svcs i])
    qed
  qed
qed

lemma next_visits_result:
  "0 \<le> c \<Longrightarrow>
   next_visits ql svcs c =
     map int (filter (\<lambda>j. matches ql (svcs ! j)) [Suc (nat c)..<length svcs])"
proof (induction ql svcs c rule: next_visits.induct)
  case (1 ql svcs c)
  let ?P = "\<lambda>j. matches ql (svcs ! j)"
  have sc: "nat (c + 1) = Suc (nat c)" using "1.prems" by simp
  have ff: "find_forward ql svcs (c + 1) =
     Inr (case filter ?P [Suc (nat c)..<length svcs] of [] \<Rightarrow> None | j # _ \<Rightarrow> Some (int j))"
    using find_forward_result [of "c + 1" ql svcs] "1.prems" sc by simp
  show ?case
  proof (cases "filter ?P [Suc (nat c)..<length svcs]")
    case Nil
    then show ?thesis using ff by (simp add: next_visits.simps [of ql svcs c])
  next
    case (Cons j rest)
    from filter_upt_first [OF Cons] have j: "Suc (nat c) \<le> j" "j < length svcs"
      "rest = filter ?P [Suc j..<length svcs]" by auto
    have fs: "find_forward ql svcs (c + 1) = Inr (Some (int j))" using ff Cons by simp
    have g: "c < int j \<and> int j < int (length svcs)" using j "1.prems" by linarith
    have "next_visits ql svcs (int j) = map int (filter ?P [Suc (nat (int j))..<length svcs])"
      using "1.IH" [OF fs refl g] by simp
    then show ?thesis
      using fs g Cons j(3) by (simp add: next_visits.simps [of ql svcs c])
  qed
qed

lemma next_visits_end:
  "0 \<le> c \<Longrightarrow> find_forward ql svcs (last (c # next_visits ql svcs c) + 1) = Inr None"
proof (induction ql svcs c rule: next_visits.induct)
  case (1 ql svcs c)
  let ?P = "\<lambda>j. matches ql (svcs ! j)"
  have sc: "nat (c + 1) = Suc (nat c)" using "1.prems" by simp
  have ff: "find_forward ql svcs (c + 1) =
     Inr (case filter ?P [Suc (nat c)..<length svcs] of [] \<Rightarrow> None | j # _ \<Rightarrow> Some (int j))"
    using find_forward_result [of "c + 1" ql svcs] "1.prems" sc by simp
  show ?case
  proof (cases "filter ?P [Suc (nat c)..<length svcs]")
    case Nil
    then show ?thesis using ff by (simp add: next_visits.simps [of ql svcs c])
  next
    case (Cons j rest)
    from filter_upt_first [OF Cons] have j: "Suc (nat c) \<le> j" "j < length svcs" by auto
    have fs: "find_forward ql svcs (c + 1) = Inr (Some (int j))" using ff Cons by simp
    have g: "c < int j \<and> int j < int (length svcs)" using j "1.prems" by linarith
    have "find_forward ql svcs (last (int j # next_visits ql svcs (int j)) + 1) = Inr None"
      using "1.IH" [OF fs refl g] by simp
    then show ?thesis
      using fs g by (simp add: next_visits.simps [of ql svcs c])
  qed
qed

lemma key_n_result:
  assumes "filter_q st = Some q" "q \<noteq> []" "services st \<noteq> []"
  shows "key_n st =
     (case find_forward (lower q) (services st) (cursor st + 1) of
        Inl e \<Rightarrow> Inl e
      | Inr (Some i) \<Rightarrow> Inr (st\<lparr>cursor := i\<rparr>)
      | Inr None \<Rightarrow> Inr (st\<lparr>status_msg := ''no more matches''\<rparr>))"
  using assms by (simp add: key_n_def falsy_def)

lemma key_N_result:
  assumes "filter_q st = Some q" "q \<noteq> []" "services st \<noteq> []"
  shows "key_N st =
     (case find_backward (lower q) (services st) (cursor st - 1) of
        Inl e \<Rightarrow> Inl e
      | Inr (Some i) \<Rightarrow> Inr (st\<lparr>cursor := i\<rparr>)
      | Inr None \<Rightarrow> Inr (st\<lparr>status_msg := ''no previous match''\<rparr>))"
  using assms by (simp add: key_N_def falsy_def)

text \<open>
  C4. In a state with an active query and a cursor inside a non-empty filtered list:
  when no element after the cursor matches, the forward search returns no match, and when
  no element before the cursor matches, the backward search returns no match; on no match
  the branches of \<open>n\<close> and \<open>N\<close> change nothing but the status message; on a match
  they move the cursor to it. Pressing \<open>n\<close> again and again from cursor \<open>c\<close> visits
  exactly the matching indices greater than \<open>c\<close>, each once, in ascending order, and
  the press after the last of them finds no match; from cursor 0 these visits, preceded by
  index 0 when it matches, are all the matching indices.
\<close>

theorem match_navigator:
  assumes "filter_q st = Some q" "q \<noteq> []" "services st \<noteq> []"
    and "0 \<le> cursor st" "cursor st < int (length (services st))"
    and "ql = lower q" "svcs = services st" "c = cursor st"
  shows
    "((\<forall>j. nat c < j \<and> j < length svcs \<longrightarrow> \<not> matches ql (svcs ! j)) \<longrightarrow>
        find_forward ql svcs (c + 1) = Inr None) \<and>
     ((\<forall>j. j < nat c \<longrightarrow> \<not> matches ql (svcs ! j)) \<longrightarrow>
        find_backward ql svcs (c - 1) = Inr None) \<and>
     (key ev = Ch CHR ''n'' \<and> find_forward ql svcs (c + 1) = Inr None \<longrightarrow>
        handle_key ev ml st = Continue (st\<lparr>status_msg := ''no more matches''\<rparr>)) \<and>
     (key ev = Ch CHR ''N'' \<and> find_backward ql svcs (c - 1) = Inr None \<longrightarrow>
        handle_key ev ml st = Continue (st\<lparr>status_msg := ''no previous match''\<rparr>)) \<and>
     (\<forall>i. key ev = Ch CHR ''n'' \<and> find_forward ql svcs (c + 1) = Inr (Some i) \<longrightarrow>
        handle_key ev ml st = Continue (st\<lparr>cursor := i\<rparr>)) \<and>
     (\<forall>i. key ev = Ch CHR ''N'' \<and> find_backward ql svcs (c - 1) = Inr (Some i) \<longrightarrow>
        handle_key ev ml st = Continue (st\<lparr>cursor := i\<rparr>)) \<and>
     next_visits ql svcs c =
       map int (filter (\<lambda>j. matches ql (svcs ! j)) [Suc (nat c)..<length svcs]) \<and>
     find_forward ql svcs (last (c # next_visits ql svcs c) + 1) = Inr None \<and>
     (c = 0 \<longrightarrow>
        map int (filter (\<lambda>j. matches ql (svcs ! j)) [0..<length svcs]) =
          (if matches ql (svcs ! 0) then [0] else []) @ next_visits ql svcs c)"
proof -
  let ?P = "\<lambda>j. matches ql (svcs ! j)"
  have c0: "0 \<le> c" "c < int (length svcs)" using assms by auto
  have sc: "nat (c + 1) = Suc (nat c)" "nat (c - 1 + 1) = nat c" using c0 by auto
  have ff: "find_forward ql svcs (c + 1) =
     Inr (case filter ?P [Suc (nat c)..<length svcs] of [] \<Rightarrow> None | j # _ \<Rightarrow> Some (int j))"
    using find_forward_result [of "c + 1" ql svcs] c0 sc by simp
  have fb: "find_backward ql svcs (c - 1) =
     Inr (case filter ?P (rev [0..<nat c]) of [] \<Rightarrow> None | j # _ \<Rightarrow> Some (int j))"
    using find_backward_result [of "c - 1" svcs ql] c0 sc by simp
  have p1: "(\<forall>j. nat c < j \<and> j < length svcs \<longrightarrow> \<not> ?P j) \<longrightarrow>
        find_forward ql svcs (c + 1) = Inr None"
  proof
    assume "\<forall>j. nat c < j \<and> j < length svcs \<longrightarrow> \<not> ?P j"
    then have "filter ?P [Suc (nat c)..<length svcs] = []" by (auto simp: filter_empty_conv)
    then show "find_forward ql svcs (c + 1) = Inr None" using ff by simp
  qed
  have p2: "(\<forall>j. j < nat c \<longrightarrow> \<not> ?P j) \<longrightarrow> find_backward ql svcs (c - 1) = Inr None"
  proof
    assume "\<forall>j. j < nat c \<longrightarrow> \<not> ?P j"
    then have "filter ?P (rev [0..<nat c]) = []" by (auto simp: filter_empty_conv)
    then show "find_backward ql svcs (c - 1) = Inr None" using fb by simp
  qed
  have kn: "key ev = Ch CHR ''n'' \<Longrightarrow> handle_key ev ml st =
      proceed (case find_forward ql svcs (c + 1) of
        Inl e \<Rightarrow> Inl e
      | Inr (Some i) \<Rightarrow> Inr (st\<lparr>cursor := i\<rparr>)
      | Inr None \<Rightarrow> Inr (st\<lparr>status_msg := ''no more matches''\<rparr>))"
    using key_n_result [OF assms(1,2,3)] assms(6,7,8) by (simp add: handle_key_n)
  have kN: "key ev = Ch CHR ''N'' \<Longrightarrow> handle_key ev ml st =
      proceed (case find_backward ql svcs (c - 1) of
        Inl e \<Rightarrow> Inl e
      | Inr (Some i) \<Rightarrow> Inr (st\<lparr>cursor := i\<rparr>)
      | Inr None \<Rightarrow> Inr (st\<lparr>status_msg := ''no previous match''\<rparr>))"
    using key_N_result [OF assms(1,2,3)] assms(6,7,8) by (simp add: handle_key_N)
  have p3: "key ev = Ch CHR ''n'' \<and> find_forward ql svcs (c + 1) = Inr None \<longrightarrow>
        handle_key ev ml st = Continue (st\<lparr>status_msg := ''no more matches''\<rparr>)"
    using kn by (auto simp: proceed_def)
  have p4: "key ev = Ch CHR ''N'' \<and> find_backward ql svcs (c - 1) = Inr None \<longrightarrow>
        handle_key ev ml st = Continue (st\<lparr>status_msg := ''no previous match''\<rparr>)"
    using kN by (auto simp: proceed_def)
  have p5: "\<forall>i. key ev = Ch CHR ''n'' \<and> find_forward ql svcs (c + 1) = Inr (Some i) \<longrightarrow>
        handle_key ev ml st = Continue (st\<lparr>cursor := i\<rparr>)"
    using kn by (auto simp: proceed_def)
  have p6: "\<forall>i. key ev = Ch CHR ''N'' \<and> find_backward ql svcs (c - 1) = Inr (Some i) \<longrightarrow>
        handle_key ev ml st = Continue (st\<lparr>cursor := i\<rparr>)"
    using kN by (auto simp: proceed_def)
  have p7: "next_visits ql svcs c = map int (filter ?P [Suc (nat c)..<length svcs])"
    using c0(1) by (rule next_visits_result)
  have p8: "find_forward ql svcs (last (c # next_visits ql svcs c) + 1) = Inr None"
    using c0(1) by (rule next_visits_end)
  have p9: "c = 0 \<longrightarrow> map int (filter ?P [0..<length svcs]) =
          (if ?P 0 then [0] else []) @ next_visits ql svcs c"
  proof
    assume z: "c = 0"
    have "[0..<length svcs] = 0 # [Suc 0..<length svcs]"
      using c0(2) z by (simp add: upt_conv_Cons)
    then show "map int (filter ?P [0..<length svcs]) =
          (if ?P 0 then [0] else []) @ next_visits ql svcs c"
      using p7 z by simp
  qed
  show ?thesis using p1 p2 p3 p4 p5 p6 p7 p8 p9 by (intro conjI)
qed

theorem match_navigator_witness:
  "find_forward (lower ''ssh'') three_units (0 + 1) = Inr None \<and>
   handle_key (quiet 20 (Ch CHR ''n'')) 17 ((browsing three_units)\<lparr>filter_q := Some ''ssh''\<rparr>) =
     Continue ((browsing three_units)\<lparr>filter_q := Some ''ssh'', status_msg := ''no more matches''\<rparr>) \<and>
   find_backward (lower ''nginx'') three_units (2 - 1) = Inr None \<and>
   handle_key (quiet 20 (Ch CHR ''N'')) 17
       ((browsing three_units)\<lparr>filter_q := Some ''nginx'', cursor := 2\<rparr>) =
     Continue ((browsing three_units)\<lparr>filter_q := Some ''nginx'', cursor := 2,
                                      status_msg := ''no previous match''\<rparr>) \<and>
   next_visits (lower ''N'') three_units 0 = [2] \<and>
   map int (filter (\<lambda>j. matches (lower ''N'') (three_units ! j)) [0..<length three_units]) = [0, 2]"
proof -
  let ?A = "(browsing three_units)\<lparr>filter_q := Some ''ssh''\<rparr>"
  let ?B = "(browsing three_units)\<lparr>filter_q := Some ''nginx'', cursor := 2\<rparr>"
  let ?C = "(browsing three_units)\<lparr>filter_q := Some ''N''\<rparr>"
  have len: "length three_units = 3" by (simp add: three_units_def)
  have ne: "three_units \<noteq> []" by (simp add: three_units_def)
  have s1: "\<not> matches (lower ''ssh'') (three_units ! 1)" by code_simp
  have s2: "\<not> matches (lower ''ssh'') (three_units ! 2)" by code_simp
  have g0: "\<not> matches (lower ''nginx'') (three_units ! 0)" by code_simp
  have g1: "\<not> matches (lower ''nginx'') (three_units ! 1)" by code_simp
  have n0: "matches (lower ''N'') (three_units ! 0)" by code_simp
  have fwd: "\<forall>j. nat 0 < j \<and> j < length three_units \<longrightarrow> \<not> matches (lower ''ssh'') (three_units ! j)"
  proof (intro allI impI)
    fix j assume "nat 0 < j \<and> j < length three_units"
    then have "j = 1 \<or> j = 2" using len by auto
    then show "\<not> matches (lower ''ssh'') (three_units ! j)" using s1 s2 by auto
  qed
  have bwd: "\<forall>j. j < nat 2 \<longrightarrow> \<not> matches (lower ''nginx'') (three_units ! j)"
  proof (intro allI impI)
    fix j :: nat assume "j < nat 2"
    then have "j = 0 \<or> j = 1" by auto
    then show "\<not> matches (lower ''nginx'') (three_units ! j)" using g0 g1 by auto
  qed
  have kn: "key (quiet 20 (Ch CHR ''n'')) = Ch CHR ''n''" by (simp add: quiet_def)
  have kN: "key (quiet 20 (Ch CHR ''N'')) = Ch CHR ''N''" by (simp add: quiet_def)
  note A = match_navigator [of ?A "''ssh''" "lower ''ssh''" three_units 0 "quiet 20 (Ch CHR ''n'')" 17]
  note B = match_navigator [of ?B "''nginx''" "lower ''nginx''" three_units 2 "quiet 20 (Ch CHR ''N'')" 17]
  note C = match_navigator [of ?C "''N''" "lower ''N''" three_units 0 "quiet 20 (Ch CHR ''n'')" 17]
  have a1: "find_forward (lower ''ssh'') three_units (0 + 1) = Inr None"
    using A fwd ne len by (simp add: browsing_def)
  have a2: "handle_key (quiet 20 (Ch CHR ''n'')) 17 ?A = Continue (?A\<lparr>status_msg := ''no more matches''\<rparr>)"
    using A a1 kn ne len by (simp add: browsing_def)
  have b1: "find_backward (lower ''nginx'') three_units (2 - 1) = Inr None"
    using B bwd ne len by (simp add: browsing_def)
  have b2: "handle_key (quiet 20 (Ch CHR ''N'')) 17 ?B = Continue (?B\<lparr>status_msg := ''no previous match''\<rparr>)"
    using B b1 kN ne len by (simp add: browsing_def)
  have c0: "map int (filter (\<lambda>j. matches (lower ''N'') (three_units ! j)) [0..<length three_units]) =
          (if matches (lower ''N'') (three_units ! 0) then [0] else []) @ next_visits (lower ''N'') three_units 0"
    using C ne len by (simp add: browsing_def)
  have c1: "next_visits (lower ''N'') three_units 0 = [2]" by code_simp
  show ?thesis using a1 a2 b1 b2 c0 c1 n0 by simp
qed

end
